theory Spec2Isabelle
  imports Main "HOL-Library.Sublist"
begin

section \<open>Strings of code points\<close>

text \<open>
  The program is Python 3: a \<^verbatim>\<open>str\<close> is a sequence of Unicode code points, and indexing,
  slicing, \<^verbatim>\<open>count\<close>, \<^verbatim>\<open>rfind\<close> and the \<^verbatim>\<open>re\<close> module all count code points. A string is
  therefore a list of code points, each a natural number. ASCII text is embedded with
  \<open>str\<close>; the Japanese characters the program names are given by their code points.
\<close>

type_synonym uchar = nat
type_synonym ustring = "nat list"

definition str :: "string \<Rightarrow> ustring" where
  "str cs = map of_char cs"

abbreviation LF :: uchar where "LF \<equiv> 0x0A"
abbreviation CR :: uchar where "CR \<equiv> 0x0D"
abbreviation SPACE :: uchar where "SPACE \<equiv> 0x20"
abbreviation BAR :: uchar where "BAR \<equiv> 0x7C"

text \<open>U+3000 IDEOGRAPHIC SPACE, the full-width space.\<close>
abbreviation ZSPACE :: uchar where "ZSPACE \<equiv> 0x3000"

text \<open>U+2015 HORIZONTAL BAR and U+FF0D FULLWIDTH HYPHEN-MINUS, the two rule characters.\<close>
abbreviation HBAR :: uchar where "HBAR \<equiv> 0x2015"
abbreviation ZHYPHEN :: uchar where "ZHYPHEN \<equiv> 0xFF0D"

text \<open>U+756A, the number-marker glyph (read "ban").\<close>
abbreviation BAN :: uchar where "BAN \<equiv> 0x756A"

text \<open>U+51FA U+5E2D, the section keyword (read "shusseki", attendance).\<close>
abbreviation SHUSSEKI :: ustring where "SHUSSEKI \<equiv> [0x51FA, 0x5E2D]"

text \<open>
  The honorifics the program strips: U+8B70 U+54E1 ("giin", member), U+3055 U+3093
  (hiragana "san") and U+541B (the kanji "kun").
\<close>
abbreviation GIIN :: ustring where "GIIN \<equiv> [0x8B70, 0x54E1]"
abbreviation SAN :: ustring where "SAN \<equiv> [0x3055, 0x3093]"
abbreviation KUN :: ustring where "KUN \<equiv> [0x541B]"

subsection \<open>Python's string operations\<close>

text \<open>
  A slice bound \<open>i\<close> on a sequence of length \<open>n\<close>: a negative bound counts from the end,
  and every bound is clamped to \<open>0..n\<close>. Slices never raise.
\<close>

definition slice_bound :: "nat \<Rightarrow> int \<Rightarrow> nat" where
  "slice_bound n i = (if i < 0 then nat (int n + i) else min n (nat i))"

text \<open>\<^verbatim>\<open>s[i:j]\<close>, \<^verbatim>\<open>s[:j]\<close> and \<^verbatim>\<open>s[i:]\<close>.\<close>

definition slice :: "'a list \<Rightarrow> int \<Rightarrow> int \<Rightarrow> 'a list" where
  "slice s i j =
     (let a = slice_bound (length s) i; b = slice_bound (length s) j
      in take (b - a) (drop a s))"

definition slice_to :: "'a list \<Rightarrow> int \<Rightarrow> 'a list" where
  "slice_to s j = take (slice_bound (length s) j) s"

definition slice_from :: "'a list \<Rightarrow> int \<Rightarrow> 'a list" where
  "slice_from s i = drop (slice_bound (length s) i) s"

text \<open>
  \<^verbatim>\<open>s.replace(old, new)\<close>: the occurrences of \<open>old\<close> are found from the left and do not
  overlap. An empty \<open>old\<close> matches before every character and at the end.
\<close>

fun str_replace :: "ustring \<Rightarrow> ustring \<Rightarrow> ustring \<Rightarrow> ustring" where
  "str_replace old new [] = (if old = [] then new else [])"
| "str_replace old new (c # s) =
     (if old = [] then new @ c # str_replace old new s
      else if prefix old (c # s) then new @ str_replace old new (drop (length old - 1) s)
      else c # str_replace old new s)"

text \<open>\<^verbatim>\<open>s.split(sep)\<close> for a separator of one character: never an empty list.\<close>

fun split :: "ustring \<Rightarrow> uchar \<Rightarrow> ustring list" where
  "split [] sep = [[]]"
| "split (c # s) sep =
     (if c = sep then [] # split s sep
      else (case split s sep of [] \<Rightarrow> [[c]] | r # rs \<Rightarrow> (c # r) # rs))"

text \<open>\<^verbatim>\<open>s.rfind(c)\<close> for one character: the last index of \<open>c\<close>, or \<open>-1\<close>.\<close>

fun rfind :: "ustring \<Rightarrow> uchar \<Rightarrow> int" where
  "rfind [] c = - 1"
| "rfind (x # s) c =
     (let r = rfind s c in if 0 \<le> r then r + 1 else if x = c then 0 else - 1)"

text \<open>
  \<^verbatim>\<open>s.lower()\<close> on ASCII letters. The labels the two detectors return are ASCII names
  of encodings; on other letters Python's \<^verbatim>\<open>lower\<close> does more than this.
\<close>

definition lower :: "ustring \<Rightarrow> ustring" where
  "lower s = map (\<lambda>c. if 0x41 \<le> c \<and> c \<le> 0x5A then c + 0x20 else c) s"

text \<open>\<^verbatim>\<open>'%d' % n\<close> for a count: the decimal digits of \<open>n\<close>.\<close>

fun decimal :: "nat \<Rightarrow> ustring" where
  "decimal n = (if n < 10 then [0x30 + n] else decimal (n div 10) @ [0x30 + n mod 10])"

declare decimal.simps [simp del]

subsection \<open>Regular expressions\<close>

text \<open>
  A pattern is modelled by its anchored matcher: \<open>m s\<close> is the length of the match of
  the pattern at the start of \<open>s\<close> (the one Python's backtracking finds), or \<open>None\<close>.
  \<^verbatim>\<open>re.search\<close> tries the positions from the left and returns the span
  \<open>(start, end)\<close> of the first match. \<^verbatim>\<open>re.sub\<close> replaces the matches it finds from the
  left, resuming after each. None of the patterns of this program matches the empty
  string (\<open>match_br_line_pos\<close>, \<open>match_blank_pos\<close> below), so \<open>re_sub\<close> leaves
  Python's rules for empty matches out.
\<close>

fun re_search :: "(ustring \<Rightarrow> nat option) \<Rightarrow> ustring \<Rightarrow> (nat \<times> nat) option" where
  "re_search m [] = (case m [] of None \<Rightarrow> None | Some n \<Rightarrow> Some (0, n))"
| "re_search m (c # s) =
     (case m (c # s) of
        Some n \<Rightarrow> Some (0, n)
      | None \<Rightarrow> (case re_search m s of
                  None \<Rightarrow> None
                | Some (i, j) \<Rightarrow> Some (Suc i, Suc j)))"

fun re_sub :: "(ustring \<Rightarrow> nat option) \<Rightarrow> ustring \<Rightarrow> ustring \<Rightarrow> ustring" where
  "re_sub m repl [] = []"
| "re_sub m repl (c # s) =
     (case m (c # s) of
        None \<Rightarrow> c # re_sub m repl s
      | Some n \<Rightarrow> if n = 0 then c # re_sub m repl s
                  else repl @ re_sub m repl (drop (n - 1) s))"

text \<open>\<^verbatim>\<open>\n{2,}\<close>: a greedy run of at least two line feeds.\<close>

definition match_blank :: "ustring \<Rightarrow> nat option" where
  "match_blank s =
     (let n = length (takeWhile (\<lambda>c. c = LF) s) in if 2 \<le> n then Some n else None)"

text \<open>
  \<^verbatim>\<open>( |Z)*<(br|BR|br /|BR /)>( |Z)*\<close>, \<open>Z\<close> the full-width space. The spaces are taken
  greedily; no shorter run can be followed by \<open><\<close>, so there is nothing to backtrack
  to. The four alternatives are tried in order, each followed by \<open>>\<close>.
\<close>

definition is_blank :: "uchar \<Rightarrow> bool" where
  "is_blank c = (c = SPACE \<or> c = ZSPACE)"

definition match_br_tag :: "ustring \<Rightarrow> nat option" where
  "match_br_tag s =
     (if prefix (str ''<br>'') s then Some 4
      else if prefix (str ''<BR>'') s then Some 4
      else if prefix (str ''<br />'') s then Some 6
      else if prefix (str ''<BR />'') s then Some 6
      else None)"

text \<open>The four texts that the brackets and the alternatives between them match.\<close>

definition br_tags :: "ustring list" where
  "br_tags = [str ''<br>'', str ''<BR>'', str ''<br />'', str ''<BR />'']"

definition match_br_line :: "ustring \<Rightarrow> nat option" where
  "match_br_line s =
     (let n1 = length (takeWhile is_blank s) in
      case match_br_tag (drop n1 s) of
        None \<Rightarrow> None
      | Some n2 \<Rightarrow> Some (n1 + n2 + length (takeWhile is_blank (drop (n1 + n2) s))))"

text \<open>\<^verbatim>\<open>SHUSSEKI.*\<close>: the keyword, then the rest of its line (\<open>.\<close> stops at a line feed).\<close>

definition match_shusseki :: "ustring \<Rightarrow> nat option" where
  "match_shusseki s =
     (if prefix SHUSSEKI s then Some (2 + length (takeWhile (\<lambda>c. c \<noteq> LF) (drop 2 s)))
      else None)"

text \<open>
  \<^verbatim>\<open>[0-9|Z0-Z9]+BAN\<close>, \<open>Z0-Z9\<close> the full-width digits U+FF10..U+FF19. Inside the
  brackets \<open>|\<close> is a character like the others, so the class has 21 members. The run is
  greedy, and the marker is not in the class, so a shorter run is never followed by it.
\<close>

definition number_class :: "uchar \<Rightarrow> bool" where
  "number_class c = ((0x30 \<le> c \<and> c \<le> 0x39) \<or> c = BAR \<or> (0xFF10 \<le> c \<and> c \<le> 0xFF19))"

definition match_number :: "ustring \<Rightarrow> nat option" where
  "match_number s =
     (let n = length (takeWhile number_class s) in
      if 0 < n \<and> prefix [BAN] (drop n s) then Some (n + 1) else None)"

text \<open>
  \<^verbatim>\<open>re.fullmatch\<close> of \<^verbatim>\<open>Z*(HBAR|ZHYPHEN)+\<close>: full-width spaces, then rule characters to
  the end of the row, at least one.
\<close>

definition fullmatch_rule :: "ustring \<Rightarrow> bool" where
  "fullmatch_rule row =
     (let r = dropWhile (\<lambda>c. c = ZSPACE) row
      in r \<noteq> [] \<and> list_all (\<lambda>c. c = HBAR \<or> c = ZHYPHEN) r)"

section \<open>The program\<close>

text \<open>
  What the program raises. Python raises \<^verbatim>\<open>AttributeError\<close> when \<^verbatim>\<open>re.search\<close> returns
  \<^verbatim>\<open>None\<close> and the next line calls \<^verbatim>\<open>re_res.start()\<close>: in \<^verbatim>\<open>parse\<close> that is
  \<open>SectionNotFound\<close>, in \<^verbatim>\<open>remove_number_honorific\<close> it is \<open>MalformedFragment\<close>. It raises
  the same when the first detector has no guess and \<^verbatim>\<open>.lower()\<close> is called on \<^verbatim>\<open>None\<close>
  (\<open>NoEncodingGuess\<close>). \<open>ValueError\<close> carries the arguments the program gives it.
\<close>

datatype error =
    SectionNotFound
  | MalformedFragment
  | NoEncodingGuess
  | ValueError "ustring list"

text \<open>The dictionary \<^verbatim>\<open>{'number': ..., 'name': ...}\<close>.\<close>

record member =
  number :: ustring
  name :: ustring

subsection \<open>\<^verbatim>\<open>replace_empty_line\<close>\<close>

definition replace_empty_line :: "ustring \<Rightarrow> ustring" where
  "replace_empty_line lines = re_sub match_blank [LF] (str_replace [CR, LF] [LF] lines)"

subsection \<open>\<^verbatim>\<open>remove_number_honorific\<close>\<close>

text \<open>
  \<^verbatim>\<open>mojimoji.zen_to_han\<close> belongs to a library outside the repository. It maps
  full-width characters to their half-width forms; the program passes it a run of the
  class \<open>number_class\<close> only (\<open>number_run_class\<close> below), on which it turns the full-width
  digits into ASCII digits and leaves the ASCII digits and \<open>|\<close> as they are. Only this
  part of its table is modelled.
\<close>

definition zen_to_han :: "ustring \<Rightarrow> ustring" where
  "zen_to_han s = map (\<lambda>c. if 0xFF10 \<le> c \<and> c \<le> 0xFF19 then c - 0xFEE0 else c) s"

definition remove_number_honorific :: "ustring \<Rightarrow> error + member" where
  "remove_number_honorific person_string =
     (case re_search match_number person_string of
        None \<Rightarrow> Inl MalformedFragment
      | Some (start, fin) \<Rightarrow>
          let number = zen_to_han (slice person_string (int start) (int fin - 1));
              name = slice_from person_string (int fin);
              name = (if suffix GIIN name \<or> suffix SAN name then slice_to name (- 2)
                      else if suffix KUN name then slice_to name (- 1)
                      else name)
          in Inr \<lparr>number = number, name = name\<rparr>)"

subsection \<open>\<^verbatim>\<open>parse\<close>\<close>

text \<open>
  The message written to \<^verbatim>\<open>sys.stderr\<close> for a row with \<open>n\<close> markers, \<open>n\<close> neither 1 nor
  2: a fixed Japanese sentence around the count.
\<close>

definition ban_count_message :: "nat \<Rightarrow> ustring" where
  "ban_count_message n =
     [0x300C, BAN, 0x300D, 0x306E, 0x6570, 0x304C, SPACE] @ decimal n @
     [SPACE, 0x500B, 0x3042, 0x308A, 0xFF0C, 0x5BFE, 0x51E6, 0x3067, 0x304D, 0x306A, 0x3044, LF]"

text \<open>
  The loop over the rows. The state is \<open>member_list\<close> and what has been written to
  \<^verbatim>\<open>sys.stderr\<close>; \<^verbatim>\<open>break\<close> returns the state. Python's \<^verbatim>\<open>or\<close> does not evaluate its
  second operand when the first holds, which the nested \<open>if\<close> follows.
\<close>

fun rows_loop :: "ustring list \<Rightarrow> ustring list \<times> ustring list \<Rightarrow> ustring list \<times> ustring list" where
  "rows_loop [] (member_list, err) = (member_list, err)"
| "rows_loop (row # rows) (member_list, err) =
     (if BAN \<notin> set row then (member_list, err)
      else if fullmatch_rule row then (member_list, err)
      else
        let ban_count = count_list row BAN in
        if ban_count = 2 then
          let pivot = rfind row BAN - 2 in
          rows_loop rows (member_list @ [slice_to row pivot, slice_from row pivot], err)
        else if ban_count = 1 then
          rows_loop rows (member_list @ [row], err)
        else
          rows_loop rows (member_list, err @ [ban_count_message ban_count]))"

text \<open>
  The list comprehension: the fragments in order, spaces removed, each through
  \<open>remove_number_honorific\<close>; the first one that raises ends it.
\<close>

definition clean :: "ustring \<Rightarrow> ustring" where
  "clean member = str_replace [SPACE] [] (str_replace [ZSPACE] [] member)"

fun parse_members :: "ustring list \<Rightarrow> error + member list" where
  "parse_members [] = Inr []"
| "parse_members (member # member_list) =
     (case remove_number_honorific (clean member) of
        Inl e \<Rightarrow> Inl e
      | Inr r \<Rightarrow> (case parse_members member_list of
                   Inl e \<Rightarrow> Inl e
                 | Inr rs \<Rightarrow> Inr (r # rs)))"

text \<open>The text after the two format changes, in which the section is searched.\<close>

definition normalize :: "ustring \<Rightarrow> ustring" where
  "normalize html_string = replace_empty_line (re_sub match_br_line [] html_string)"

text \<open>
  \<open>fragments\<close> is \<open>parse\<close> up to the end of its loop: \<open>member_list\<close> and the diagnostics,
  or the failure of the search for the section.
\<close>

definition fragments :: "ustring \<Rightarrow> error + ustring list \<times> ustring list" where
  "fragments html_string =
     (let html_string = normalize html_string in
      case re_search match_shusseki html_string of
        None \<Rightarrow> Inl SectionNotFound
      | Some (start, fin) \<Rightarrow>
          let html_string = slice_from html_string (int start)
          in Inr (rows_loop (slice_from (split html_string LF) 1) ([], [])))"

text \<open>
  \<open>parse\<close> returns what was written to \<^verbatim>\<open>sys.stderr\<close>, and the records or the error
  raised.
\<close>

definition parse :: "ustring \<Rightarrow> ustring list \<times> (error + member list)" where
  "parse html_string =
     (case fragments html_string of
        Inl e \<Rightarrow> ([], Inl e)
      | Inr (member_list, err) \<Rightarrow> (err, parse_members member_list))"

subsection \<open>\<^verbatim>\<open>det_encoding\<close>\<close>

text \<open>
  The two detectors (\<^verbatim>\<open>chardet.UniversalDetector\<close> and \<^verbatim>\<open>nkf.guess\<close>) are libraries
  outside the repository that read the file; their answers are parameters here.
  \<open>chardet\<close>'s answer may be \<^verbatim>\<open>None\<close>. The result is what was written to
  \<^verbatim>\<open>sys.stderr\<close>, and the label returned or the error raised.
\<close>

text \<open>The text of the \<^verbatim>\<open>ValueError\<close>: a Japanese sentence, "file written in a character
  code that cannot be handled at present:".\<close>

definition unsupported_message :: ustring where
  "unsupported_message =
     [0x73FE, 0x5728, 0x6271, 0x3048, 0x306A, 0x3044, 0x6587, 0x5B57, 0x30B3, 0x30FC, 0x30C9,
      0x3067, 0x66F8, 0x304B, 0x308C, 0x305F, 0x30D5, 0x30A1, 0x30A4, 0x30EB, 0xFF1A]"

definition conflict_warning :: "ustring \<Rightarrow> ustring \<Rightarrow> ustring" where
  "conflict_warning chardet_res nkf_res =
     str ''[warning] conflict char_codes: '' @ chardet_res @ str '' vs '' @ nkf_res @ [LF]"

definition det_encoding ::
    "ustring \<Rightarrow> ustring option \<Rightarrow> ustring \<Rightarrow> ustring list \<times> (error + ustring)" where
  "det_encoding file_path chardet_guess nkf_guess =
     (case chardet_guess of
        None \<Rightarrow> ([], Inl NoEncodingGuess)
      | Some enc \<Rightarrow>
          let chardet_res = lower enc; nkf_res = lower nkf_guess in
          if chardet_res \<noteq> nkf_res then
            if str ''cp932'' \<in> {chardet_res, nkf_res}
            then ([conflict_warning chardet_res nkf_res], Inr (str ''CP932''))
            else ([conflict_warning chardet_res nkf_res],
                  Inl (ValueError [unsupported_message, file_path]))
          else ([], Inr chardet_res))"

subsection \<open>The end-to-end scenario\<close>

text \<open>
  The document of the scenario: the header line "shusseki giin", the row of member 1
  (Yamada Hanako, with "san"), an empty line, the row of member 2 with a full-width
  digit (Suzuki Ichiro, with "kun"), a rule of four horizontal bars, and then any text.
\<close>

definition scenario :: "ustring \<Rightarrow> ustring" where
  "scenario trailing =
     SHUSSEKI @ GIIN @ [LF] @
     [0x31, BAN, 0x5C71, 0x7530, 0x82B1, 0x5B50] @ SAN @ [LF, LF] @
     [0xFF12, BAN, 0x9234, 0x6728, 0x4E00, 0x90CE] @ KUN @ [LF] @
     [HBAR, HBAR, HBAR, HBAR, LF] @ trailing"

section \<open>Properties\<close>

subsection \<open>The two steps of \<open>replace_empty_line\<close>, one character at a time\<close>

lemma crlf_Cons:
  "str_replace [CR, LF] [LF] (c # s) =
     (if c = CR \<and> prefix [LF] s then LF # str_replace [CR, LF] [LF] (tl s)
      else c # str_replace [CR, LF] [LF] s)"
  by (simp add: drop_Suc)

lemma blank_Cons:
  "re_sub match_blank [LF] (c # s) =
     (if c = LF then LF # re_sub match_blank [LF] (dropWhile (\<lambda>x. x = LF) s)
      else c # re_sub match_blank [LF] s)"
proof (cases "c = LF")
  case False
  then show ?thesis by (simp add: match_blank_def)
next
  case lf: True
  show ?thesis
  proof (cases "takeWhile (\<lambda>x. x = LF) s = []")
    case True
    then have "dropWhile (\<lambda>x. x = LF) s = s"
      by (metis takeWhile_dropWhile_id append_Nil)
    with True lf show ?thesis by (simp add: match_blank_def)
  next
    case False
    with lf show ?thesis
      by (simp add: match_blank_def dropWhile_eq_drop Suc_le_eq)
  qed
qed

subsection \<open>The scenario\<close>

lemma strip_scenario:
  "re_sub match_br_line [] (scenario t) = scenario (re_sub match_br_line [] t)"
  unfolding scenario_def
  by (simp add: match_br_line_def match_br_tag_def is_blank_def str_def)

lemma crlf_scenario:
  "str_replace [CR, LF] [LF] (scenario t) = scenario (str_replace [CR, LF] [LF] t)"
  unfolding scenario_def by simp

lemma blank_scenario:
  "\<exists>x. re_sub match_blank [LF] (scenario t) =
     SHUSSEKI @ GIIN @ [LF] @
     [0x31, BAN, 0x5C71, 0x7530, 0x82B1, 0x5B50] @ SAN @ [LF] @
     [0xFF12, BAN, 0x9234, 0x6728, 0x4E00, 0x90CE] @ KUN @ [LF] @
     [HBAR, HBAR, HBAR, HBAR, LF] @ x"
  unfolding scenario_def
  by (simp add: blank_Cons del: re_sub.simps(2))

text \<open>
  C1. The document with the header line "shusseki giin", the row "1 ban Yamada Hanako
  san", an empty line, the row "2 ban Suzuki Ichiro kun" (full-width 2), a rule of
  horizontal bars and any trailing text parses to exactly the two records
  (1, Yamada Hanako) and (2, Suzuki Ichiro), in this order, with nothing written to the
  diagnostic channel.
\<close>

theorem parse_scenario:
  "parse (scenario trailing) =
     ([], Inr [\<lparr>number = [0x31], name = [0x5C71, 0x7530, 0x82B1, 0x5B50]\<rparr>,
               \<lparr>number = [0x32], name = [0x9234, 0x6728, 0x4E00, 0x90CE]\<rparr>])"
proof -
  obtain x where "normalize (scenario trailing) =
     SHUSSEKI @ GIIN @ [LF] @
     [0x31, BAN, 0x5C71, 0x7530, 0x82B1, 0x5B50] @ SAN @ [LF] @
     [0xFF12, BAN, 0x9234, 0x6728, 0x4E00, 0x90CE] @ KUN @ [LF] @
     [HBAR, HBAR, HBAR, HBAR, LF] @ x"
    unfolding normalize_def replace_empty_line_def strip_scenario crlf_scenario
    using blank_scenario by blast
  then show ?thesis
    by (simp add: parse_def fragments_def match_shusseki_def slice_from_def slice_bound_def
        fullmatch_rule_def clean_def remove_number_honorific_def match_number_def
        number_class_def slice_def slice_to_def zen_to_han_def Let_def suffix_to_prefix
        split: list.splits)
qed

subsection \<open>\<open>remove_number_honorific\<close> on single fragments\<close>

text \<open>
  C5. The fragment "3 ban Sato kun", with the full-width digit 3 (U+FF13) and "kun"
  written in hiragana (U+304F U+3093): the digit is converted to the ASCII digit, but
  the name keeps the hiragana "kun". The program strips "giin", the hiragana "san" and
  the kanji "kun" (U+541B) only, although its docstring names the hiragana "kun" among
  the things a fragment contains. The same holds when the fragment is a row of a
  document given to \<open>parse\<close>.
\<close>

theorem remove_number_honorific_hiragana_kun:
  "remove_number_honorific [0xFF13, BAN, 0x4F50, 0x85E4, 0x304F, 0x3093] =
     Inr \<lparr>number = [0x33], name = [0x4F50, 0x85E4, 0x304F, 0x3093]\<rparr> \<and>
   parse (SHUSSEKI @ GIIN @ [LF] @ [0xFF13, BAN, 0x4F50, 0x85E4, 0x304F, 0x3093]) =
     ([], Inr [\<lparr>number = [0x33], name = [0x4F50, 0x85E4, 0x304F, 0x3093]\<rparr>])"
  by (simp add: parse_def fragments_def normalize_def replace_empty_line_def match_br_line_def
      match_br_tag_def is_blank_def str_def match_blank_def match_shusseki_def
      fullmatch_rule_def clean_def remove_number_honorific_def match_number_def
      number_class_def slice_def slice_from_def slice_to_def slice_bound_def zen_to_han_def
      Let_def suffix_to_prefix)

text \<open>
  C6. The fragment "| ban Tanaka": the vertical bar is a member of the bracket
  expression of the pattern, so the match succeeds and the number field is the bar, not
  a digit. The same holds when the fragment is a row of a document given to \<open>parse\<close>.
\<close>

theorem remove_number_honorific_bar_number:
  "remove_number_honorific [BAR, BAN, 0x7530, 0x4E2D] =
     Inr \<lparr>number = [BAR], name = [0x7530, 0x4E2D]\<rparr> \<and>
   parse (SHUSSEKI @ GIIN @ [LF] @ [BAR, BAN, 0x7530, 0x4E2D]) =
     ([], Inr [\<lparr>number = [BAR], name = [0x7530, 0x4E2D]\<rparr>])"
  by (simp add: parse_def fragments_def normalize_def replace_empty_line_def match_br_line_def
      match_br_tag_def is_blank_def str_def match_blank_def match_shusseki_def
      fullmatch_rule_def clean_def remove_number_honorific_def match_number_def
      number_class_def slice_def slice_from_def slice_to_def slice_bound_def zen_to_han_def
      Let_def suffix_to_prefix)

subsection \<open>\<open>det_encoding\<close>\<close>

text \<open>
  C3 as the specification states it fails: when the detectors answer "UTF-8" and
  "CP932" the label returned is the upper-case "CP932", not the lower-case label that
  was compared; and "shift_jis" is no legacy label for the program, which raises
  \<open>ValueError\<close> on it.
\<close>

theorem det_encoding_cp932_counterexample:
  "snd (det_encoding (str ''res/otsu.html'') (Some (str ''UTF-8'')) (str ''CP932'')) =
     Inr (str ''CP932'') \<and>
   str ''CP932'' \<noteq> lower (str ''CP932'') \<and>
   lower (str ''SHIFT_JIS'') = str ''shift_jis'' \<and>
   snd (det_encoding (str ''res/otsu.html'') (Some (str ''SHIFT_JIS'')) (str ''UTF-8'')) =
     Inl (ValueError [unsupported_message, str ''res/otsu.html''])"
  by (simp add: det_encoding_def lower_def str_def Let_def)

text \<open>
  C3, amended. For every pair of detector labels that differ after lowercasing, if
  either lowercased label is "cp932", \<open>det_encoding\<close> writes one warning naming both
  lowercased labels to the diagnostic channel and returns the fixed upper-case label
  "CP932".
\<close>

theorem det_encoding_prefers_cp932:
  assumes "lower a \<noteq> lower b"
    and "lower a = str ''cp932'' \<or> lower b = str ''cp932''"
  shows "det_encoding file_path (Some a) b =
           ([conflict_warning (lower a) (lower b)], Inr (str ''CP932''))"
  using assms by (auto simp add: det_encoding_def Let_def)

theorem det_encoding_prefers_cp932_witness:
  "lower (str ''UTF-8'') \<noteq> lower (str ''CP932'') \<and>
   lower (str ''CP932'') = str ''cp932'' \<and>
   det_encoding (str ''res/otsu.html'') (Some (str ''UTF-8'')) (str ''CP932'') =
     ([str ''[warning] conflict char_codes: utf-8 vs cp932'' @ [LF]], Inr (str ''CP932''))"
proof -
  have 1: "lower (str ''UTF-8'') \<noteq> lower (str ''CP932'')"
    by (simp add: lower_def str_def)
  have 2: "lower (str ''CP932'') = str ''cp932''"
    by (simp add: lower_def str_def)
  have 3: "conflict_warning (lower (str ''UTF-8'')) (lower (str ''CP932'')) =
             str ''[warning] conflict char_codes: utf-8 vs cp932'' @ [LF]"
    by (simp add: lower_def str_def conflict_warning_def)
  from det_encoding_prefers_cp932 [OF 1 disjI2 [OF 2], of "str ''res/otsu.html''"] 1 2 3
  show ?thesis by simp
qed

text \<open>
  C4 as the specification states it fails: when the detectors answer "UTF-8" and
  "EUC-JP" the \<open>ValueError\<close> raised carries a fixed message and the path of the file,
  and neither the lowercased nor the original labels.
\<close>

theorem det_encoding_unsupported_counterexample:
  "snd (det_encoding (str ''res/otsu.html'') (Some (str ''UTF-8'')) (str ''EUC-JP'')) =
     Inl (ValueError [unsupported_message, str ''res/otsu.html'']) \<and>
   [unsupported_message, str ''res/otsu.html''] \<noteq>
     [lower (str ''UTF-8''), lower (str ''EUC-JP'')] \<and>
   [unsupported_message, str ''res/otsu.html''] \<noteq> [str ''UTF-8'', str ''EUC-JP'']"
  by (simp add: det_encoding_def lower_def str_def Let_def unsupported_message_def)

text \<open>
  C4, amended. For every pair of detector labels that differ after lowercasing, neither
  of them "cp932" when lowercased, \<open>det_encoding\<close> writes one warning naming both
  lowercased labels to the diagnostic channel and raises a \<open>ValueError\<close> that carries a
  fixed message and the path of the file.
\<close>

theorem det_encoding_unsupported:
  assumes "lower a \<noteq> lower b"
    and "lower a \<noteq> str ''cp932''" and "lower b \<noteq> str ''cp932''"
  shows "det_encoding file_path (Some a) b =
           ([conflict_warning (lower a) (lower b)],
            Inl (ValueError [unsupported_message, file_path]))"
  using assms by (simp add: det_encoding_def Let_def)

theorem det_encoding_unsupported_witness:
  "det_encoding (str ''res/otsu.html'') (Some (str ''UTF-8'')) (str ''EUC-JP'') =
     ([str ''[warning] conflict char_codes: utf-8 vs euc-jp'' @ [LF]],
      Inl (ValueError [unsupported_message, str ''res/otsu.html'']))"
proof -
  have 1: "lower (str ''UTF-8'') \<noteq> lower (str ''EUC-JP'')"
    and 2: "lower (str ''UTF-8'') \<noteq> str ''cp932''"
    and 3: "lower (str ''EUC-JP'') \<noteq> str ''cp932''"
    by (simp_all add: lower_def str_def)
  have 4: "conflict_warning (lower (str ''UTF-8'')) (lower (str ''EUC-JP'')) =
             str ''[warning] conflict char_codes: utf-8 vs euc-jp'' @ [LF]"
    by (simp add: lower_def str_def conflict_warning_def)
  from det_encoding_unsupported [OF 1 2 3, of "str ''res/otsu.html''"] 4
  show ?thesis by simp
qed

subsection \<open>\<open>replace_empty_line\<close> applied twice\<close>

text \<open>
  What each step does to the occurrences of a carriage return before a line feed:
  replacing the pairs leaves such an occurrence exactly where the text had two carriage
  returns before a line feed, and collapsing the runs of line feeds neither makes nor
  removes one.
\<close>

lemma crlf_head:
  "prefix [LF] (str_replace [CR, LF] [LF] t) \<longleftrightarrow> prefix [LF] t \<or> prefix [CR, LF] t"
  by (cases t) (auto simp add: crlf_Cons simp del: str_replace.simps(2))

lemma crlf_length: "length (str_replace [CR, LF] [LF] s) \<le> length s"
  by (induction s rule: induct_list012) (auto simp add: crlf_Cons simp del: str_replace.simps(2))

lemma crlf_fixed: "\<not> sublist [CR, LF] s \<Longrightarrow> str_replace [CR, LF] [LF] s = s"
  by (induction s) (auto simp add: crlf_Cons sublist_Cons_right simp del: str_replace.simps(2))

lemma crlf_shorter: "sublist [CR, LF] s \<Longrightarrow> length (str_replace [CR, LF] [LF] s) < length s"
proof (induction s rule: induct_list012)
  case (3 x y zs)
  show ?case
  proof (cases "x = CR \<and> y = LF")
    case True
    then show ?thesis
      using crlf_length [of zs] by (simp add: crlf_Cons del: str_replace.simps(2))
  next
    case False
    with 3 show ?thesis
      by (auto simp add: crlf_Cons sublist_Cons_right simp del: str_replace.simps(2))
  qed
qed (simp_all add: sublist_Cons_right)

lemma crlf_sublist:
  "sublist [CR, LF] (str_replace [CR, LF] [LF] s) \<longleftrightarrow> sublist [CR, CR, LF] s"
proof (induction s rule: induct_list012)
  case (3 x y zs)
  show ?case
  proof (cases "x = CR \<and> y = LF")
    case True
    with 3(1) show ?thesis
      by (simp add: crlf_Cons sublist_Cons_right del: str_replace.simps(2))
  next
    case False
    have "str_replace [CR, LF] [LF] (x # y # zs) = x # str_replace [CR, LF] [LF] (y # zs)"
      using False by (simp add: crlf_Cons del: str_replace.simps(2))
    then have "sublist [CR, LF] (str_replace [CR, LF] [LF] (x # y # zs)) \<longleftrightarrow>
        (x = CR \<and> prefix [LF] (str_replace [CR, LF] [LF] (y # zs))) \<or>
        sublist [CR, CR, LF] (y # zs)"
      using 3(2) by (auto simp add: sublist_Cons_right [of _ x] simp del: str_replace.simps(2))
    also have "\<dots> \<longleftrightarrow> sublist [CR, CR, LF] (x # y # zs)"
      using False unfolding crlf_head by (auto simp add: sublist_Cons_right [of _ x])
    finally show ?thesis .
  qed
qed (simp_all add: sublist_Cons_right)

lemma sublist_crlf_dropWhile:
  "sublist [CR, LF] (dropWhile (\<lambda>x. x = LF) t) \<longleftrightarrow> sublist [CR, LF] t"
  by (induction t) (simp_all add: sublist_Cons_right)

lemma blank_head: "prefix [LF] (re_sub match_blank [LF] t) \<longleftrightarrow> prefix [LF] t"
  by (cases t) (simp_all add: blank_Cons del: re_sub.simps(2))

lemma dropWhile_no_head: "\<not> prefix [LF] u \<Longrightarrow> dropWhile (\<lambda>x. x = LF) u = u"
  by (cases u) simp_all

lemma dropWhile_head: "\<not> prefix [LF] (dropWhile (\<lambda>x. x = LF) t)"
  by (induction t) simp_all

lemma blank_length: "length (re_sub match_blank [LF] s) \<le> length s"
proof (induction s rule: length_induct)
  case (1 s)
  show ?case
  proof (cases s)
    case (Cons c t)
    have "length (dropWhile (\<lambda>x. x = LF) t) \<le> length t"
      by (rule length_dropWhile_le)
    moreover from this have "length (re_sub match_blank [LF] (dropWhile (\<lambda>x. x = LF) t))
        \<le> length (dropWhile (\<lambda>x. x = LF) t)"
      using 1 Cons by simp
    moreover have "length (re_sub match_blank [LF] t) \<le> length t"
      using 1 Cons by simp
    ultimately show ?thesis
      using Cons by (simp add: blank_Cons del: re_sub.simps(2))
  qed simp
qed

lemma blank_sublist:
  "sublist [CR, LF] (re_sub match_blank [LF] s) \<longleftrightarrow> sublist [CR, LF] s"
proof (induction s rule: length_induct)
  case (1 s)
  show ?case
  proof (cases s)
    case (Cons c t)
    have le: "length (dropWhile (\<lambda>x. x = LF) t) \<le> length t"
      by (rule length_dropWhile_le)
    have ih1: "sublist [CR, LF] (re_sub match_blank [LF] (dropWhile (\<lambda>x. x = LF) t)) \<longleftrightarrow>
        sublist [CR, LF] t"
      using 1 Cons le by (simp add: sublist_crlf_dropWhile)
    have ih2: "sublist [CR, LF] (re_sub match_blank [LF] t) \<longleftrightarrow> sublist [CR, LF] t"
      using 1 Cons by simp
    show ?thesis
      using Cons ih1 ih2 blank_head [of t]
      by (auto simp add: blank_Cons sublist_Cons_right simp del: re_sub.simps(2))
  qed simp
qed

lemma blank_idem:
  "re_sub match_blank [LF] (re_sub match_blank [LF] s) = re_sub match_blank [LF] s"
proof (induction s rule: length_induct)
  case (1 s)
  show ?case
  proof (cases s)
    case (Cons c t)
    let ?d = "dropWhile (\<lambda>x. x = LF) t"
    have le: "length ?d \<le> length t"
      by (rule length_dropWhile_le)
    have ih1: "re_sub match_blank [LF] (re_sub match_blank [LF] ?d) = re_sub match_blank [LF] ?d"
      using 1 Cons le by simp
    have ih2: "re_sub match_blank [LF] (re_sub match_blank [LF] t) = re_sub match_blank [LF] t"
      using 1 Cons by simp
    have "\<not> prefix [LF] (re_sub match_blank [LF] ?d)"
      unfolding blank_head by (rule dropWhile_head)
    then have "dropWhile (\<lambda>x. x = LF) (re_sub match_blank [LF] ?d) = re_sub match_blank [LF] ?d"
      by (rule dropWhile_no_head)
    with ih1 ih2 Cons show ?thesis
      by (simp add: blank_Cons del: re_sub.simps(2))
  qed simp
qed

text \<open>
  C7 as the specification states it fails: on the text CR CR LF one application leaves
  CR LF, which a second application turns into LF.
\<close>

theorem replace_empty_line_counterexample:
  "replace_empty_line [CR, CR, LF] = [CR, LF] \<and>
   replace_empty_line (replace_empty_line [CR, CR, LF]) = [LF]"
  by (simp add: replace_empty_line_def match_blank_def)

text \<open>
  C7, amended. Applying \<open>replace_empty_line\<close> twice yields the same string as applying
  it once for exactly the strings that do not contain two carriage returns followed by
  a line feed; in particular for every string without a carriage return before a
  carriage return.
\<close>

theorem replace_empty_line_idempotent_iff:
  "replace_empty_line (replace_empty_line s) = replace_empty_line s \<longleftrightarrow>
     \<not> sublist [CR, CR, LF] s"
proof (cases "sublist [CR, CR, LF] s")
  case True
  then have "sublist [CR, LF] (replace_empty_line s)"
    by (simp add: replace_empty_line_def blank_sublist crlf_sublist)
  then have "length (str_replace [CR, LF] [LF] (replace_empty_line s)) < length (replace_empty_line s)"
    by (rule crlf_shorter)
  moreover have "length (replace_empty_line (replace_empty_line s))
      \<le> length (str_replace [CR, LF] [LF] (replace_empty_line s))"
    unfolding replace_empty_line_def [of "replace_empty_line s"] by (rule blank_length)
  ultimately have "replace_empty_line (replace_empty_line s) \<noteq> replace_empty_line s"
    by auto
  with True show ?thesis by simp
next
  case False
  then have "\<not> sublist [CR, LF] (replace_empty_line s)"
    by (simp add: replace_empty_line_def blank_sublist crlf_sublist)
  then have "str_replace [CR, LF] [LF] (replace_empty_line s) = replace_empty_line s"
    by (rule crlf_fixed)
  then have "replace_empty_line (replace_empty_line s) = replace_empty_line s"
    unfolding replace_empty_line_def [of "replace_empty_line s"]
    by (simp add: replace_empty_line_def blank_idem)
  with False show ?thesis by simp
qed

theorem replace_empty_line_idempotent_iff_witness:
  "replace_empty_line (replace_empty_line (str ''a'' @ [CR, LF, CR, LF, LF] @ str ''b'')) =
     replace_empty_line (str ''a'' @ [CR, LF, CR, LF, LF] @ str ''b'') \<and>
   replace_empty_line (str ''a'' @ [CR, LF, CR, LF, LF] @ str ''b'') = str ''a'' @ [LF] @ str ''b''"
proof -
  have "\<not> sublist [CR, CR, LF] (str ''a'' @ [CR, LF, CR, LF, LF] @ str ''b'')"
    by (simp add: str_def sublist_Cons_right)
  with replace_empty_line_idempotent_iff [of "str ''a'' @ [CR, LF, CR, LF, LF] @ str ''b''"]
  show ?thesis by (simp add: replace_empty_line_def match_blank_def str_def)
qed

subsection \<open>What \<open>re_search\<close> returns\<close>

lemma re_search_None_iff:
  "re_search m s = None \<longleftrightarrow> (\<forall>k\<le>length s. m (drop k s) = None)"
proof (induction s)
  case Nil
  then show ?case by (simp split: option.splits)
next
  case (Cons c s)
  have "(\<forall>k\<le>Suc (length s). m (drop k (c # s)) = None) \<longleftrightarrow>
      m (c # s) = None \<and> (\<forall>k\<le>length s. m (drop k s) = None)"
  proof
    assume a: "\<forall>k\<le>Suc (length s). m (drop k (c # s)) = None"
    from a [rule_format, of 0] have "m (c # s) = None" by simp
    moreover have "\<forall>k\<le>length s. m (drop k s) = None"
      using a [rule_format, of "Suc k" for k] by simp
    ultimately show "m (c # s) = None \<and> (\<forall>k\<le>length s. m (drop k s) = None)" ..
  next
    assume a: "m (c # s) = None \<and> (\<forall>k\<le>length s. m (drop k s) = None)"
    show "\<forall>k\<le>Suc (length s). m (drop k (c # s)) = None"
    proof (intro allI impI)
      fix k assume "k \<le> Suc (length s)"
      with a show "m (drop k (c # s)) = None" by (cases k) simp_all
    qed
  qed
  moreover have "re_search m (c # s) = None \<longleftrightarrow> m (c # s) = None \<and> re_search m s = None"
    by (auto split: option.splits)
  ultimately show ?case using Cons by simp
qed

lemma re_search_Some:
  "re_search m s = Some (i, j) \<Longrightarrow>
     i \<le> length s \<and> (\<exists>n. m (drop i s) = Some n \<and> j = i + n) \<and> (\<forall>k<i. m (drop k s) = None)"
proof (induction s arbitrary: i j)
  case Nil
  then show ?case by (simp split: option.splits)
next
  case (Cons c s)
  show ?case
  proof (cases "m (c # s)")
    case (Some n)
    with Cons.prems show ?thesis by simp
  next
    case None
    with Cons.prems obtain i' j' where r: "re_search m s = Some (i', j')"
      and ij: "i = Suc i'" "j = Suc j'"
      by (auto split: option.splits)
    from Cons.IH [OF r] have ih: "i' \<le> length s" "\<exists>n. m (drop i' s) = Some n \<and> j' = i' + n"
      "\<forall>k<i'. m (drop k s) = None" by simp_all
    have "\<forall>k<i. m (drop k (c # s)) = None"
    proof (intro allI impI)
      fix k assume "k < i"
      with None ih(3) ij show "m (drop k (c # s)) = None" by (cases k) simp_all
    qed
    with ih ij show ?thesis by simp
  qed
qed

subsection \<open>The search for the section\<close>

text \<open>
  The search fails exactly on a text without the keyword, and neither step of
  \<open>replace_empty_line\<close> brings the two characters of the keyword together or apart.
\<close>

lemma search_shusseki_None:
  "re_search match_shusseki s = None \<longleftrightarrow> \<not> sublist SHUSSEKI s"
  by (induction s) (auto simp add: match_shusseki_def sublist_Cons_right split: option.splits)

lemma crlf_head_other:
  "c \<noteq> LF \<Longrightarrow> c \<noteq> CR \<Longrightarrow> prefix [c] (str_replace [CR, LF] [LF] t) \<longleftrightarrow> prefix [c] t"
  by (cases t) (auto simp add: crlf_Cons simp del: str_replace.simps(2))

lemma crlf_shusseki:
  "sublist SHUSSEKI (str_replace [CR, LF] [LF] s) \<longleftrightarrow> sublist SHUSSEKI s"
proof (induction s rule: induct_list012)
  case (3 x y zs)
  show ?case
  proof (cases "x = CR \<and> y = LF")
    case True
    with 3(1) show ?thesis
      by (simp add: crlf_Cons sublist_Cons_right del: str_replace.simps(2))
  next
    case False
    then have "str_replace [CR, LF] [LF] (x # y # zs) = x # str_replace [CR, LF] [LF] (y # zs)"
      by (simp add: crlf_Cons del: str_replace.simps(2))
    then have "sublist SHUSSEKI (str_replace [CR, LF] [LF] (x # y # zs)) \<longleftrightarrow>
        (x = 0x51FA \<and> prefix [0x5E2D] (str_replace [CR, LF] [LF] (y # zs))) \<or>
        sublist SHUSSEKI (y # zs)"
      using 3(2) by (auto simp add: sublist_Cons_right [of _ x] simp del: str_replace.simps(2))
    also have "\<dots> \<longleftrightarrow> sublist SHUSSEKI (x # y # zs)"
      by (subst crlf_head_other) (auto simp add: sublist_Cons_right [of _ x])
    finally show ?thesis .
  qed
qed (simp_all add: sublist_Cons_right)

lemma shusseki_dropWhile:
  "sublist SHUSSEKI (dropWhile (\<lambda>x. x = LF) t) \<longleftrightarrow> sublist SHUSSEKI t"
  by (induction t) (simp_all add: sublist_Cons_right)

lemma blank_head_other:
  "c \<noteq> LF \<Longrightarrow> prefix [c] (re_sub match_blank [LF] t) \<longleftrightarrow> prefix [c] t"
  by (cases t) (auto simp add: blank_Cons simp del: re_sub.simps(2))

lemma blank_shusseki:
  "sublist SHUSSEKI (re_sub match_blank [LF] s) \<longleftrightarrow> sublist SHUSSEKI s"
proof (induction s rule: length_induct)
  case (1 s)
  show ?case
  proof (cases s)
    case (Cons c t)
    have le: "length (dropWhile (\<lambda>x. x = LF) t) \<le> length t"
      by (rule length_dropWhile_le)
    have ih1: "sublist SHUSSEKI (re_sub match_blank [LF] (dropWhile (\<lambda>x. x = LF) t)) \<longleftrightarrow>
        sublist SHUSSEKI t"
      using 1 Cons le by (simp add: shusseki_dropWhile)
    have ih2: "sublist SHUSSEKI (re_sub match_blank [LF] t) \<longleftrightarrow> sublist SHUSSEKI t"
      using 1 Cons by simp
    have hd: "prefix [0x5E2D] (re_sub match_blank [LF] t) \<longleftrightarrow> prefix [0x5E2D] t"
      by (rule blank_head_other) simp
    show ?thesis
      using Cons ih1 ih2 hd
      by (auto simp add: blank_Cons sublist_Cons_right simp del: re_sub.simps(2))
  qed simp
qed

lemma normalize_shusseki:
  "sublist SHUSSEKI (normalize html_string) \<longleftrightarrow>
     sublist SHUSSEKI (re_sub match_br_line [] html_string)"
  by (simp add: normalize_def replace_empty_line_def blank_shusseki crlf_shusseki)

lemma remove_number_honorific_error:
  "remove_number_honorific f = Inl e \<Longrightarrow> e = MalformedFragment"
  by (auto simp add: remove_number_honorific_def Let_def split: option.splits)

lemma parse_members_error: "parse_members ms = Inl e \<Longrightarrow> e = MalformedFragment"
  by (induction ms) (auto split: sum.splits dest: remove_number_honorific_error)

text \<open>
  C10 as stated fails: in the document "shutsu <br> seki" (the two characters of the
  keyword with a line-break marker between them) the keyword does not occur, yet the
  search is made after the markers are stripped, finds it, and \<open>parse\<close> returns the empty
  roster.
\<close>

theorem parse_section_counterexample:
  "\<not> sublist SHUSSEKI ([0x51FA] @ str ''<br>'' @ [0x5E2D]) \<and>
   parse ([0x51FA] @ str ''<br>'' @ [0x5E2D]) = ([], Inr [])"
  by (simp add: parse_def fragments_def normalize_def replace_empty_line_def match_br_line_def
      match_br_tag_def is_blank_def str_def match_blank_def match_shusseki_def slice_from_def
      slice_bound_def sublist_Cons_right)

text \<open>
  C10, amended. \<open>parse\<close> fails at the search for the section, returning no roster and
  writing no diagnostic, exactly for the documents in which the keyword does not occur
  once the line-break markers are stripped; so it does for every such document.
\<close>

theorem parse_section_not_found_iff:
  "parse html_string = ([], Inl SectionNotFound) \<longleftrightarrow>
     \<not> sublist SHUSSEKI (re_sub match_br_line [] html_string)"
proof (cases "re_search match_shusseki (normalize html_string)")
  case None
  then show ?thesis
    using search_shusseki_None [of "normalize html_string"] normalize_shusseki [of html_string]
    by (simp add: parse_def fragments_def Let_def)
next
  case (Some p)
  then have "sublist SHUSSEKI (re_sub match_br_line [] html_string)"
    using search_shusseki_None [of "normalize html_string"] normalize_shusseki by simp
  moreover have "parse html_string \<noteq> ([], Inl SectionNotFound)"
    using Some parse_members_error
    by (cases p) (auto simp add: parse_def fragments_def Let_def split: prod.splits)
  ultimately show ?thesis by simp
qed

theorem parse_section_not_found_iff_witness:
  "\<not> sublist SHUSSEKI (re_sub match_br_line [] ([0x51FA] @ str '' <br>'' @ [LF, 0x5E2D])) \<and>
   parse ([0x51FA] @ str '' <br>'' @ [LF, 0x5E2D]) = ([], Inl SectionNotFound)"
proof -
  have "re_sub match_br_line [] ([0x51FA] @ str '' <br>'' @ [LF, 0x5E2D]) = [0x51FA, LF, 0x5E2D]"
    by (simp add: match_br_line_def match_br_tag_def is_blank_def str_def)
  then have "\<not> sublist SHUSSEKI (re_sub match_br_line [] ([0x51FA] @ str '' <br>'' @ [LF, 0x5E2D]))"
    by (simp add: sublist_Cons_right)
  with parse_section_not_found_iff [of "[0x51FA] @ str '' <br>'' @ [LF, 0x5E2D]"]
  show ?thesis by simp
qed

subsection \<open>Stripping the line-break markers\<close>

text \<open>
  The matches of the patterns that \<open>re_sub\<close> replaces are never empty. A match of the
  marker pattern is the blanks before the marker, the marker and the blanks after it.
  A text that has no match at its start and does not end in a blank gets none when
  blanks and a marker are appended, so the matches before a marker are those of the
  text before it.
\<close>

lemma re_sub_match:
  "m (c # s) = Some n \<Longrightarrow> 0 < n \<Longrightarrow>
     re_sub m repl (c # s) = repl @ re_sub m repl (drop n (c # s))"
  by (cases n) simp_all

lemma match_blank_pos: "match_blank s = Some n \<Longrightarrow> 2 \<le> n"
  by (auto simp add: match_blank_def Let_def split: if_splits)

lemma match_br_tag_Some:
  "match_br_tag s = Some n \<Longrightarrow> \<exists>tag\<in>set br_tags. prefix tag s \<and> n = length tag"
  by (auto simp add: match_br_tag_def br_tags_def str_def split: if_splits)

lemma match_br_tag_head: "match_br_tag s = Some n \<Longrightarrow> s \<noteq> [] \<and> hd s = 0x3C"
  by (auto simp add: match_br_tag_def str_def prefix_def split: if_splits)

lemma match_br_tag_append:
  "tag \<in> set br_tags \<Longrightarrow> match_br_tag (tag @ r) = Some (length tag)"
  by (auto simp add: match_br_tag_def br_tags_def str_def)

lemma br_tags_head: "tag \<in> set br_tags \<Longrightarrow> \<exists>r. tag = 0x3C # r"
  by (auto simp add: br_tags_def str_def)

lemma match_br_line_pos: "match_br_line s = Some n \<Longrightarrow> 4 \<le> n"
  by (auto simp add: match_br_line_def match_br_tag_def Let_def split: option.splits if_splits)

lemma match_br_line_marker:
  assumes tag: "tag \<in> set br_tags"
    and sp: "list_all is_blank sp1" "list_all is_blank sp2"
    and v: "v = [] \<or> \<not> is_blank (hd v)"
  shows "match_br_line (sp1 @ tag @ sp2 @ v) = Some (length sp1 + length tag + length sp2)"
proof -
  from tag obtain r where r: "tag = 0x3C # r"
    using br_tags_head by blast
  have "takeWhile is_blank (tag @ sp2 @ v) = []"
    by (simp add: r is_blank_def)
  with sp(1) have t1: "takeWhile is_blank (sp1 @ tag @ sp2 @ v) = sp1"
    by (simp add: takeWhile_append2 list_all_iff)
  have "takeWhile is_blank v = []"
    using v by (cases v) simp_all
  with sp(2) have t2: "takeWhile is_blank (sp2 @ v) = sp2"
    by (simp add: takeWhile_append2 list_all_iff)
  show ?thesis
    unfolding match_br_line_def Let_def t1
    by (simp add: match_br_tag_append [OF tag] t2)
qed

lemma match_br_tag_None: "match_br_tag d = None \<longleftrightarrow> (\<forall>t\<in>set br_tags. \<not> prefix t d)"
  by (simp add: match_br_tag_def br_tags_def)

lemma match_br_line_decomp:
  assumes "match_br_line s = Some n"
  shows "\<exists>tag rest. tag \<in> set br_tags \<and> s = takeWhile is_blank s @ tag @ rest \<and>
    n = length (takeWhile is_blank s) + length tag + length (takeWhile is_blank rest)"
proof -
  let ?b = "takeWhile is_blank s"
  from assms obtain n2 where t: "match_br_tag (drop (length ?b) s) = Some n2"
    and n: "n = length ?b + n2 + length (takeWhile is_blank (drop (length ?b + n2) s))"
    by (auto simp add: match_br_line_def Let_def split: option.splits)
  from match_br_tag_Some [OF t] obtain tag rest where tag: "tag \<in> set br_tags"
    and d: "drop (length ?b) s = tag @ rest" and n2: "n2 = length tag"
    by (auto simp add: prefix_def)
  have s: "s = ?b @ tag @ rest"
    using d by (metis append_take_drop_id takeWhile_eq_take)
  have "drop (length ?b + n2) s = rest"
    using d n2 by (metis append_eq_conv_conj drop_drop add.commute)
  with tag s n n2 show ?thesis by auto
qed

lemma match_br_line_tag:
  assumes tag: "tag \<in> set br_tags" and b: "list_all is_blank b"
  shows "match_br_line (b @ tag @ rest) =
    Some (length b + length tag + length (takeWhile is_blank rest))"
proof -
  from tag obtain r where r: "tag = 0x3C # r"
    using br_tags_head by blast
  have "takeWhile is_blank (tag @ rest) = []"
    by (simp add: r is_blank_def)
  with b have t1: "takeWhile is_blank (b @ tag @ rest) = b"
    by (simp add: takeWhile_append2 list_all_iff)
  show ?thesis
    unfolding match_br_line_def Let_def t1
    by (simp add: match_br_tag_append [OF tag])
qed

lemma tag_split:
  "t \<in> set br_tags \<Longrightarrow> t = d @ x # us \<Longrightarrow> d \<noteq> [] \<Longrightarrow>
     x \<noteq> 0x3C \<and> (is_blank x \<longrightarrow> prefix [0x2F] us)"
  by (auto simp add: br_tags_def str_def is_blank_def append_eq_Cons_conv)

lemma marker_text_head:
  assumes "list_all is_blank sp1" and "tag \<in> set br_tags" and "sp1 @ tag @ z = x # w'"
  shows "x = 0x3C \<or> (is_blank x \<and> \<not> prefix [0x2F] w')"
proof (cases sp1)
  case Nil
  with assms(2,3) show ?thesis using br_tags_head [of tag] by auto
next
  case (Cons b sp1')
  with assms(1,3) have x: "is_blank x" and w': "w' = sp1' @ tag @ z" and b': "list_all is_blank sp1'"
    by auto
  from assms(2) obtain r where "tag = 0x3C # r" using br_tags_head by blast
  with w' b' have "\<not> prefix [0x2F] w'"
    by (cases sp1') (auto simp add: is_blank_def)
  with x show ?thesis by simp
qed

lemma match_br_line_append_None:
  assumes none: "match_br_line u = None" and u: "u \<noteq> []" "\<not> is_blank (last u)"
    and sp1: "list_all is_blank sp1" and tag: "tag \<in> set br_tags"
  shows "match_br_line (u @ sp1 @ tag @ z) = None"
proof (rule ccontr)
  let ?w = "sp1 @ tag @ z"
  assume "match_br_line (u @ ?w) \<noteq> None"
  then obtain n where "match_br_line (u @ ?w) = Some n" by auto
  from match_br_line_decomp [OF this] obtain t rest where t: "t \<in> set br_tags"
    and s: "u @ ?w = takeWhile is_blank (u @ ?w) @ t @ rest" by blast
  have l: "last u \<in> set u" using u(1) by simp
  have tw: "takeWhile is_blank (u @ ?w) = takeWhile is_blank u"
    using l u(2) by (rule takeWhile_append1)
  let ?d = "dropWhile is_blank u"
  have d: "?d \<noteq> []"
    using l u(2) by (auto simp add: dropWhile_eq_Nil_conv)
  have "takeWhile is_blank u @ ?d @ ?w = takeWhile is_blank u @ t @ rest"
    using s unfolding tw by (metis append_assoc takeWhile_dropWhile_id)
  then have eq: "?d @ ?w = t @ rest" by simp
  have "match_br_tag ?d = None"
    using none by (simp add: match_br_line_def Let_def dropWhile_eq_drop split: option.splits)
  with t have np: "\<not> prefix t ?d"
    by (simp add: match_br_tag_None)
  from eq have "prefix t (?d @ ?w)" by (simp add: prefix_def)
  with np obtain us where us: "t = ?d @ us" "prefix us ?w"
    by (auto simp add: prefix_append)
  with np have "us \<noteq> []" by auto
  then obtain x us' where x: "us = x # us'" by (cases us) auto
  with us(2) obtain w' where w': "?w = x # w'" "prefix us' w'"
    by (auto simp add: prefix_def)
  from tag_split [OF t _ d] us(1) x have a: "x \<noteq> 0x3C" "is_blank x \<longrightarrow> prefix [0x2F] us'"
    by auto
  from marker_text_head [OF sp1 tag w'(1)] a(1) have b: "is_blank x" "\<not> prefix [0x2F] w'"
    by auto
  from a(2) b(1) w'(2) have "prefix [0x2F] w'"
    by (meson prefix_order.trans)
  with b(2) show False ..
qed

lemma strip_marker_first:
  assumes tag: "tag \<in> set br_tags"
    and sp: "list_all is_blank sp1" "list_all is_blank sp2"
    and v: "v = [] \<or> \<not> is_blank (hd v)"
  shows "re_sub match_br_line [] (sp1 @ tag @ sp2 @ v) = re_sub match_br_line [] v"
proof -
  from tag obtain r where r: "tag = 0x3C # r"
    using br_tags_head by blast
  then obtain c s where cs: "sp1 @ tag @ sp2 @ v = c # s"
    by (cases sp1) simp_all
  have "match_br_line (c # s) = Some (length sp1 + length tag + length sp2)"
    using match_br_line_marker [OF tag sp v] cs by simp
  moreover have "0 < length sp1 + length tag + length sp2"
    using r by simp
  ultimately have "re_sub match_br_line [] (c # s) =
      [] @ re_sub match_br_line [] (drop (length sp1 + length tag + length sp2) (c # s))"
    by (rule re_sub_match)
  then show ?thesis
    unfolding cs [symmetric] by simp
qed

lemma strip_marker_any:
  assumes tag: "tag \<in> set br_tags"
    and sp2: "list_all is_blank sp2"
    and v: "v = [] \<or> \<not> is_blank (hd v)"
  shows "list_all is_blank sp1 \<Longrightarrow> u = [] \<or> \<not> is_blank (last u) \<Longrightarrow>
    re_sub match_br_line [] (u @ sp1 @ tag @ sp2 @ v) =
      re_sub match_br_line [] u @ re_sub match_br_line [] v"
proof (induction u arbitrary: sp1 rule: length_induct)
  case (1 u)
  note sp1 = \<open>list_all is_blank sp1\<close>
  have ih: "re_sub match_br_line [] (ys @ x @ tag @ sp2 @ v) =
      re_sub match_br_line [] ys @ re_sub match_br_line [] v"
    if "length ys < length u" and "list_all is_blank x" and "ys = [] \<or> \<not> is_blank (last ys)"
    for ys x
    using "1.IH" that by blast
  let ?w = "sp1 @ tag @ sp2 @ v"
  show ?case
  proof (cases u)
    case Nil
    then show ?thesis
      using strip_marker_first [OF tag sp1 sp2 v] by simp
  next
    case (Cons c u')
    then have une: "u \<noteq> []" and lu: "\<not> is_blank (last u)"
      using "1.prems"(2) by auto
    show ?thesis
    proof (cases "match_br_line u")
      case None
      have "match_br_line (u @ ?w) = None"
        using None une lu sp1 tag by (rule match_br_line_append_None)
      moreover have "u' = [] \<or> \<not> is_blank (last u')"
        using lu Cons by (cases u') simp_all
      then have "re_sub match_br_line [] (u' @ ?w) =
          re_sub match_br_line [] u' @ re_sub match_br_line [] v"
        using ih [of u' sp1] Cons sp1 by simp
      ultimately show ?thesis
        using None Cons by simp
    next
      case (Some n)
      from match_br_line_decomp [OF Some] obtain t rest where t: "t \<in> set br_tags"
        and s: "u = takeWhile is_blank u @ t @ rest"
        and n: "n = length (takeWhile is_blank u) + length t + length (takeWhile is_blank rest)"
        by blast
      let ?b = "takeWhile is_blank u"
      have b: "list_all is_blank ?b"
        by (auto simp add: list_all_iff dest: set_takeWhileD)
      from t obtain r where r: "t = 0x3C # r" using br_tags_head by blast
      have npos: "0 < n" using n r by simp
      have fu: "re_sub match_br_line [] u = re_sub match_br_line [] (drop n u)"
        using re_sub_match [of match_br_line c u' n "[]"] Some npos Cons by simp
      have uw: "u @ ?w = ?b @ t @ (rest @ ?w)"
        using s by (metis append_assoc)
      have mw: "match_br_line (u @ ?w) =
          Some (length ?b + length t + length (takeWhile is_blank (rest @ ?w)))"
        unfolding uw using t b by (rule match_br_line_tag)
      have fw: "re_sub match_br_line [] (u @ ?w) = re_sub match_br_line []
          (drop (length ?b + length t + length (takeWhile is_blank (rest @ ?w))) (u @ ?w))"
        using re_sub_match [of match_br_line c "u' @ ?w" _ "[]"] mw r Cons by simp
      show ?thesis
      proof (cases "rest = []")
        case True
        from tag obtain r' where r': "tag = 0x3C # r'" using br_tags_head by blast
        have "takeWhile is_blank ?w = sp1"
          using sp1 r' by (simp add: takeWhile_append2 list_all_iff is_blank_def)
        with True have "drop (length ?b + length t + length (takeWhile is_blank (rest @ ?w))) (u @ ?w)
            = tag @ sp2 @ v"
          unfolding uw by simp
        with fw have "re_sub match_br_line [] (u @ ?w) = re_sub match_br_line [] v"
          using strip_marker_first [OF tag _ sp2 v, of "[]"] by simp
        moreover have "drop n u = []"
          using True s n by (metis append_Nil2 drop_all length_append list.size(3) add.right_neutral order_refl takeWhile.simps(1))
        ultimately show ?thesis using fu by simp
      next
        case False
        have lr: "last rest = last u"
          using s False by (metis last_appendR append_is_Nil_conv)
        have "last rest \<in> set rest"
          using False by simp
        moreover have "\<not> is_blank (last rest)"
          using lu lr by simp
        ultimately have lrs: "last rest \<in> set rest" "\<not> is_blank (last rest)"
          by blast+
        then have tw: "takeWhile is_blank (rest @ ?w) = takeWhile is_blank rest"
          by (rule takeWhile_append1)
        let ?u2 = "dropWhile is_blank rest"
        have u2: "?u2 \<noteq> []"
          using lrs by (auto simp add: dropWhile_eq_Nil_conv)
        have du: "drop n u = ?u2"
        proof -
          have "u = (?b @ t @ takeWhile is_blank rest) @ ?u2"
            using s by simp
          moreover have "length (?b @ t @ takeWhile is_blank rest) = n"
            using n by simp
          ultimately show ?thesis by (metis append_eq_conv_conj)
        qed
        have dw: "drop n (u @ ?w) = ?u2 @ ?w"
        proof -
          have "u @ ?w = (?b @ t @ takeWhile is_blank rest) @ (?u2 @ ?w)"
            using s by (metis append_assoc takeWhile_dropWhile_id)
          moreover have "length (?b @ t @ takeWhile is_blank rest) = n"
            using n by simp
          ultimately show ?thesis by (metis append_eq_conv_conj)
        qed
        have "length ?u2 < length u"
          using du npos une by (metis diff_less length_drop length_greater_0_conv)
        moreover have "\<not> is_blank (last ?u2)"
          using u2 lrs(2) by (metis last_appendR takeWhile_dropWhile_id)
        ultimately have "re_sub match_br_line [] (?u2 @ ?w) =
            re_sub match_br_line [] ?u2 @ re_sub match_br_line [] v"
          using ih [of ?u2 sp1] sp1 by simp
        with fw fu tw n du dw show ?thesis by simp
      qed
    qed
  qed
qed

lemma match_br_line_sublist:
  assumes "match_br_line s = Some n"
  shows "\<exists>tag\<in>set br_tags. sublist tag s"
proof -
  from assms obtain k n2 where "match_br_tag (drop k s) = Some n2"
    by (auto simp add: match_br_line_def Let_def split: option.splits)
  then obtain tag where "tag \<in> set br_tags" "prefix tag (drop k s)"
    using match_br_tag_Some by blast
  moreover have "suffix (drop k s) s"
    by (rule suffix_drop)
  ultimately show ?thesis
    unfolding sublist_altdef' by blast
qed

lemma strip_unchanged:
  "\<forall>tag\<in>set br_tags. \<not> sublist tag s \<Longrightarrow> re_sub match_br_line [] s = s"
proof (induction s)
  case (Cons c s)
  have "match_br_line (c # s) = None"
    using Cons.prems match_br_line_sublist [of "c # s"] by (cases "match_br_line (c # s)") auto
  moreover have "\<forall>tag\<in>set br_tags. \<not> sublist tag s"
    using Cons.prems by (auto simp add: sublist_Cons_right)
  ultimately show ?case
    using Cons.IH by simp
qed simp

text \<open>
  C9 as stated fails in both directions: the marker between the two members of the row
  "1 ban Yamada <br> 2 ban Suzuki" stands inside a content line and is removed, and the
  marker written "<Br>", alone on its line between blanks, is not.
\<close>

theorem strip_br_counterexample:
  "re_sub match_br_line [] ([0x31, BAN, 0x5C71, 0x7530] @ str ''<br>'' @ [0x32, BAN, 0x9234, 0x6728]) =
     [0x31, BAN, 0x5C71, 0x7530, 0x32, BAN, 0x9234, 0x6728] \<and>
   re_sub match_br_line [] (str ''a'' @ [LF] @ str '' <Br> '' @ [LF] @ str ''b'') =
     str ''a'' @ [LF] @ str '' <Br> '' @ [LF] @ str ''b''"
  by (simp add: match_br_line_def match_br_tag_def is_blank_def str_def)

text \<open>
  C9, amended. The step removes a line-break marker written in one of the four exact
  spellings \<^verbatim>\<open><br>\<close>, \<^verbatim>\<open><BR>\<close>, \<^verbatim>\<open><br />\<close>, \<^verbatim>\<open><BR />\<close>, with the ASCII and
  full-width spaces on both sides of it, wherever it stands, inside a content line as
  well as on a line of its own: for any text \<open>u\<close> before it (taken up to the blanks
  before the marker, so not ending in a blank) and any text \<open>v\<close> after it (taken from
  the end of the blanks after the marker), what is left is the stripped \<open>u\<close> followed by
  the stripped \<open>v\<close>. A text in which none of the four spellings occurs is left as it is,
  whatever other casings it contains.
\<close>

theorem strip_br_exact:
  "(tag \<in> set br_tags \<and> (u = [] \<or> \<not> is_blank (last u)) \<and>
    list_all is_blank sp1 \<and> list_all is_blank sp2 \<and> (v = [] \<or> \<not> is_blank (hd v)) \<longrightarrow>
    re_sub match_br_line [] (u @ sp1 @ tag @ sp2 @ v) =
      re_sub match_br_line [] u @ re_sub match_br_line [] v) \<and>
   ((\<forall>tag\<in>set br_tags. \<not> sublist tag s) \<longrightarrow> re_sub match_br_line [] s = s)"
  using strip_marker_any strip_unchanged by blast

theorem strip_br_exact_witness:
  "re_sub match_br_line []
     ((str ''<p>'' @ [0x31, BAN] @ str '' <BR>'' @ [0x5C71, 0x7530]) @ [SPACE, ZSPACE] @
      str ''<br />'' @ [SPACE] @ [LF, 0x32, BAN]) =
     str ''<p>'' @ [0x31, BAN, 0x5C71, 0x7530] @ [LF, 0x32, BAN] \<and>
   re_sub match_br_line [] (str ''<Br><br/>'') = str ''<Br><br/>''"
proof -
  let ?u = "str ''<p>'' @ [0x31, BAN] @ str '' <BR>'' @ [0x5C71, 0x7530]"
  have 1: "str ''<br />'' \<in> set br_tags \<and> (?u = [] \<or> \<not> is_blank (last ?u)) \<and>
      list_all is_blank [SPACE, ZSPACE] \<and> list_all is_blank [SPACE] \<and>
      ([LF, 0x32, BAN] = [] \<or> \<not> is_blank (hd [LF, 0x32, BAN]))"
    by (simp add: br_tags_def is_blank_def str_def)
  have 2: "\<forall>tag\<in>set br_tags. \<not> sublist tag (str ''<Br><br/>'')"
    by (simp add: br_tags_def str_def sublist_Cons_right)
  have 3: "re_sub match_br_line [] ?u = str ''<p>'' @ [0x31, BAN, 0x5C71, 0x7530]"
    by (simp add: match_br_line_def match_br_tag_def is_blank_def str_def)
  have 4: "re_sub match_br_line [] [LF, 0x32, BAN] = [LF, 0x32, BAN]"
    by (simp add: match_br_line_def match_br_tag_def is_blank_def str_def)
  from strip_br_exact [of "str ''<br />''" ?u "[SPACE, ZSPACE]" "[SPACE]"
      "[LF, 0x32, BAN]" "str ''<Br><br/>''"] 1 2
  have "re_sub match_br_line [] (?u @ [SPACE, ZSPACE] @ str ''<br />'' @ [SPACE] @ [LF, 0x32, BAN]) =
      re_sub match_br_line [] ?u @ re_sub match_br_line [] [LF, 0x32, BAN]"
    and "re_sub match_br_line [] (str ''<Br><br/>'') = str ''<Br><br/>''"
    by blast+
  then show ?thesis
    unfolding 3 4 by simp
qed

subsection \<open>Fragments and records\<close>

text \<open>
  Removing the two kinds of space is a filter. A match of the number pattern is a
  non-empty run of the class followed by the marker, so the slice given to \<open>zen_to_han\<close>
  is that run, and the name starts after the marker.
\<close>

lemma str_replace_char: "str_replace [c] [] s = filter (\<lambda>x. x \<noteq> c) s"
  by (induction s) auto

lemma clean_filter: "clean member = filter (\<lambda>x. x \<noteq> SPACE \<and> x \<noteq> ZSPACE) member"
  by (simp add: clean_def str_replace_char del: str_replace.simps) (metis (mono_tags, lifting) filter_cong)

lemma match_number_Some:
  assumes "match_number u = Some n"
  shows "n = length (takeWhile number_class u) + 1" and "takeWhile number_class u \<noteq> []"
    and "n \<le> length u"
proof -
  let ?k = "length (takeWhile number_class u)"
  from assms have k: "0 < ?k" and p: "prefix [BAN] (drop ?k u)" and n: "n = ?k + 1"
    by (auto simp add: match_number_def Let_def split: if_splits)
  from n show "n = length (takeWhile number_class u) + 1" .
  from k show "takeWhile number_class u \<noteq> []" by simp
  from p have "drop ?k u \<noteq> []" by auto
  then have "?k < length u" by simp
  with n show "n \<le> length u" by simp
qed

lemma number_run_class:
  assumes "re_search match_number s = Some (start, fin)"
  shows "slice s (int start) (int fin - 1) = takeWhile number_class (drop start s)"
    and "list_all number_class (slice s (int start) (int fin - 1))"
    and "slice s (int start) (int fin - 1) \<noteq> []"
    and "slice_from s (int fin) = drop fin s"
proof -
  from re_search_Some [OF assms] obtain n where st: "start \<le> length s"
    and m: "match_number (drop start s) = Some n" and fin: "fin = start + n"
    by blast
  let ?run = "takeWhile number_class (drop start s)"
  note mn = match_number_Some [OF m]
  have "int fin - 1 = int (start + length ?run)"
    using fin mn(1) by simp
  moreover have "start + length ?run \<le> length s"
    using st mn(1,3) by simp
  ultimately have "slice s (int start) (int fin - 1) = take (length ?run) (drop start s)"
    using st by (simp add: slice_def slice_bound_def Let_def del: of_nat_add)
  also have "\<dots> = ?run"
    by (simp add: takeWhile_eq_take [symmetric])
  finally show 1: "slice s (int start) (int fin - 1) = ?run" .
  show "list_all number_class (slice s (int start) (int fin - 1))"
    unfolding 1 list_all_iff by (auto dest: set_takeWhileD)
  show "slice s (int start) (int fin - 1) \<noteq> []"
    unfolding 1 by (rule mn(2))
  show "slice_from s (int fin) = drop fin s"
    by (cases "fin \<le> length s") (simp_all add: slice_from_def slice_bound_def min_def)
qed

lemma strip_honorific_empty:
  "(if suffix GIIN nm \<or> suffix SAN nm then slice_to nm (- 2)
    else if suffix KUN nm then slice_to nm (- 1) else nm) = [] \<longleftrightarrow>
   nm \<in> {[], GIIN, SAN, KUN}"
proof -
  have two: "length nm = 2 \<Longrightarrow> suffix xs nm \<Longrightarrow> length xs = 2 \<Longrightarrow> nm = xs" for xs
    by (auto simp add: suffix_def)
  have one: "length nm = 1 \<Longrightarrow> suffix xs nm \<Longrightarrow> length xs = 1 \<Longrightarrow> nm = xs" for xs
    by (auto simp add: suffix_def)
  have len: "suffix xs nm \<Longrightarrow> length xs \<le> length nm" for xs
    by (rule suffix_length_le)
  show ?thesis
  proof (cases "suffix GIIN nm \<or> suffix SAN nm")
    case True
    then have "2 \<le> length nm" using len [of GIIN] len [of SAN] by auto
    moreover have "slice_to nm (- 2) = [] \<longleftrightarrow> length nm \<le> 2"
      by (auto simp add: slice_to_def slice_bound_def)
    ultimately show ?thesis
      using True two [of GIIN] two [of SAN] by auto
  next
    case False
    show ?thesis
    proof (cases "suffix KUN nm")
      case True
      then have "1 \<le> length nm" using len [of KUN] by auto
      moreover have "slice_to nm (- 1) = [] \<longleftrightarrow> length nm \<le> 1"
        by (auto simp add: slice_to_def slice_bound_def)
      ultimately show ?thesis
        using True False one [of KUN] by auto
    next
      case nk: False
      with False show ?thesis by auto
    qed
  qed
qed

lemma remove_number_honorific_None:
  "remove_number_honorific f = Inl MalformedFragment \<longleftrightarrow> re_search match_number f = None"
  by (auto simp add: remove_number_honorific_def Let_def split: option.splits)

lemma remove_number_honorific_Inr:
  assumes "remove_number_honorific f = Inr r"
  shows "\<exists>start fin. re_search match_number f = Some (start, fin) \<and> number r \<noteq> [] \<and>
    (name r = [] \<longleftrightarrow> drop fin f \<in> {[], GIIN, SAN, KUN})"
proof -
  from assms obtain start fin where s: "re_search match_number f = Some (start, fin)"
    by (auto simp add: remove_number_honorific_def split: option.splits)
  note run = number_run_class [OF s]
  from assms s have n: "number r = zen_to_han (slice f (int start) (int fin - 1))"
    and nm: "name r = (if suffix GIIN (drop fin f) \<or> suffix SAN (drop fin f)
        then slice_to (drop fin f) (- 2)
        else if suffix KUN (drop fin f) then slice_to (drop fin f) (- 1) else drop fin f)"
    by (auto simp add: remove_number_honorific_def Let_def run(4))
  from n run(3) have "number r \<noteq> []"
    by (simp add: zen_to_han_def)
  moreover have "name r = [] \<longleftrightarrow> drop fin f \<in> {[], GIIN, SAN, KUN}"
    unfolding nm by (rule strip_honorific_empty)
  ultimately show ?thesis using s by blast
qed

text \<open>
  The number of a record is made of ASCII digits and vertical bars: the full-width
  digits of the run are converted, the bars of the class stay.
\<close>

lemma number_chars:
  assumes "remove_number_honorific f = Inr r"
  shows "list_all (\<lambda>c. (0x30 \<le> c \<and> c \<le> 0x39) \<or> c = BAR) (number r)"
proof -
  from assms obtain start fin where s: "re_search match_number f = Some (start, fin)"
    by (auto simp add: remove_number_honorific_def split: option.splits)
  with assms have "number r = zen_to_han (slice f (int start) (int fin - 1))"
    by (auto simp add: remove_number_honorific_def Let_def)
  moreover have "list_all number_class (slice f (int start) (int fin - 1))"
    using s by (rule number_run_class)
  ultimately show ?thesis
    by (auto simp add: zen_to_han_def list_all_iff number_class_def)
qed

lemma parse_members_Inr:
  "parse_members ms = Inr rs \<Longrightarrow>
     length rs = length ms \<and> (\<forall>i<length ms. remove_number_honorific (clean (ms ! i)) = Inr (rs ! i))"
proof (induction ms arbitrary: rs)
  case Nil
  then show ?case by simp
next
  case (Cons m ms)
  from Cons.prems obtain r rs' where r: "remove_number_honorific (clean m) = Inr r"
    and rs': "parse_members ms = Inr rs'" and rs: "rs = r # rs'"
    by (auto split: sum.splits)
  from Cons.IH [OF rs'] have ih: "length rs' = length ms"
    "\<forall>i<length ms. remove_number_honorific (clean (ms ! i)) = Inr (rs' ! i)" by simp_all
  have "\<forall>i<length (m # ms). remove_number_honorific (clean ((m # ms) ! i)) = Inr (rs ! i)"
  proof (intro allI impI)
    fix i assume "i < length (m # ms)"
    with r rs ih(2) show "remove_number_honorific (clean ((m # ms) ! i)) = Inr (rs ! i)"
      by (cases i) simp_all
  qed
  with ih(1) rs show ?case by simp
qed

lemma parse_members_malformed:
  "parse_members ms = Inl MalformedFragment \<longleftrightarrow>
     (\<exists>m\<in>set ms. re_search match_number (clean m) = None)"
proof (induction ms)
  case Nil
  then show ?case by simp
next
  case (Cons m ms)
  show ?case
  proof (cases "remove_number_honorific (clean m)")
    case (Inl e)
    then have "e = MalformedFragment" by (rule remove_number_honorific_error)
    with Inl show ?thesis
      using remove_number_honorific_None [of "clean m"] by simp
  next
    case (Inr r)
    then have "re_search match_number (clean m) \<noteq> None"
      using remove_number_honorific_None [of "clean m"] by simp
    with Inr Cons.IH show ?thesis
      by (auto split: sum.splits)
  qed
qed

lemma number_marker_match:
  assumes "number_class d"
  shows "re_search match_number (clean (p @ d # BAN # q)) \<noteq> None"
proof -
  have d: "d \<noteq> SPACE" "d \<noteq> ZSPACE" "d \<noteq> BAN"
    using assms by (auto simp add: number_class_def)
  let ?s = "clean (p @ d # BAN # q)"
  have s: "?s = clean p @ d # BAN # clean q"
    using d by (simp add: clean_filter)
  have "match_number (drop (length (clean p)) ?s) = Some 2"
    unfolding s using assms by (simp add: match_number_def number_class_def)
  moreover have "length (clean p) \<le> length ?s"
    unfolding s by simp
  ultimately show ?thesis
    unfolding re_search_None_iff by (metis option.distinct(1))
qed

text \<open>
  C2 as stated fails: the row "1 ban" has exactly one marker, with a digit before it,
  and its record has an empty name.
\<close>

theorem parse_empty_name_counterexample:
  "count_list [0x31, BAN] BAN = 1 \<and> match_number [0x31, BAN] = Some 2 \<and>
   parse (SHUSSEKI @ GIIN @ [LF] @ [0x31, BAN] @ [LF] @
          [0xFF12, BAN, 0x9234, 0x6728, 0x4E00, 0x90CE] @ KUN) =
     ([], Inr [\<lparr>number = [0x31], name = []\<rparr>,
               \<lparr>number = [0x32], name = [0x9234, 0x6728, 0x4E00, 0x90CE]\<rparr>])"
  by (simp add: parse_def fragments_def normalize_def replace_empty_line_def match_br_line_def
      match_br_tag_def is_blank_def str_def match_blank_def match_shusseki_def slice_from_def
      slice_bound_def fullmatch_rule_def clean_def remove_number_honorific_def match_number_def
      number_class_def slice_def slice_to_def zen_to_han_def Let_def suffix_to_prefix)

text \<open>
  C2, amended. Every record that \<open>parse\<close> produces has a non-empty number field. Its
  name field is empty exactly when, in the fragment it comes from with the spaces
  removed, the text after the number marker is empty or is just one of the honorifics
  "giin", "san" (hiragana) and "kun" (kanji); otherwise both fields are non-empty.
\<close>

theorem parse_record_fields:
  assumes "fragments html_string = Inr (member_list, err)"
    and "snd (parse html_string) = Inr records"
    and "i < length records"
  shows "\<exists>start fin. re_search match_number (clean (member_list ! i)) = Some (start, fin) \<and>
           number (records ! i) \<noteq> [] \<and>
           (name (records ! i) = [] \<longleftrightarrow> drop fin (clean (member_list ! i)) \<in> {[], GIIN, SAN, KUN})"
proof -
  from assms(1,2) have "parse_members member_list = Inr records"
    by (simp add: parse_def)
  from parse_members_Inr [OF this] assms(3)
  have "remove_number_honorific (clean (member_list ! i)) = Inr (records ! i)"
    by simp
  then show ?thesis
    by (rule remove_number_honorific_Inr)
qed

theorem parse_record_fields_witness:
  "fragments (SHUSSEKI @ GIIN @ [LF] @ [0x31, BAN] @ [LF] @
              [0xFF12, BAN, 0x9234, 0x6728, 0x4E00, 0x90CE] @ KUN) =
     Inr ([[0x31, BAN], [0xFF12, BAN, 0x9234, 0x6728, 0x4E00, 0x90CE] @ KUN], []) \<and>
   (\<exists>start fin.
      re_search match_number (clean ([0xFF12, BAN, 0x9234, 0x6728, 0x4E00, 0x90CE] @ KUN)) =
        Some (start, fin) \<and>
      number \<lparr>number = [0x32], name = [0x9234, 0x6728, 0x4E00, 0x90CE]\<rparr> \<noteq> [] \<and>
      (name \<lparr>number = [0x32], name = [0x9234, 0x6728, 0x4E00, 0x90CE]\<rparr> = [] \<longleftrightarrow>
       drop fin (clean ([0xFF12, BAN, 0x9234, 0x6728, 0x4E00, 0x90CE] @ KUN)) \<in>
         {[], GIIN, SAN, KUN}))"
proof -
  let ?doc = "SHUSSEKI @ GIIN @ [LF] @ [0x31, BAN] @ [LF] @
              [0xFF12, BAN, 0x9234, 0x6728, 0x4E00, 0x90CE] @ KUN"
  let ?ms = "[[0x31, BAN], [0xFF12, BAN, 0x9234, 0x6728, 0x4E00, 0x90CE] @ KUN]"
  let ?rs = "[\<lparr>number = [0x31], name = []\<rparr>,
              \<lparr>number = [0x32], name = [0x9234, 0x6728, 0x4E00, 0x90CE]\<rparr>]"
  have f: "fragments ?doc = Inr (?ms, [])"
    by (simp add: fragments_def normalize_def replace_empty_line_def match_br_line_def
        match_br_tag_def is_blank_def str_def match_blank_def match_shusseki_def slice_from_def
        slice_bound_def fullmatch_rule_def Let_def)
  have p: "snd (parse ?doc) = Inr ?rs"
    using f
    by (simp add: parse_def clean_def remove_number_honorific_def match_number_def
        number_class_def slice_def slice_from_def slice_to_def slice_bound_def zen_to_han_def
        Let_def suffix_to_prefix)
  have i: "1 < length ?rs" by simp
  from parse_record_fields [OF f p i] f show ?thesis by simp
qed

text \<open>
  C8 as stated fails: the row "ban Yamada" contains the marker, so the loop passes it on
  as a fragment, but no character of the class stands before the marker and
  \<open>remove_number_honorific\<close> fails.
\<close>

theorem parse_malformed_counterexample:
  "fragments (SHUSSEKI @ GIIN @ [LF] @ [BAN, 0x5C71, 0x7530]) = Inr ([[BAN, 0x5C71, 0x7530]], []) \<and>
   re_search match_number (clean [BAN, 0x5C71, 0x7530]) = None \<and>
   parse (SHUSSEKI @ GIIN @ [LF] @ [BAN, 0x5C71, 0x7530]) = ([], Inl MalformedFragment)"
  by (simp add: parse_def fragments_def normalize_def replace_empty_line_def match_br_line_def
      match_br_tag_def is_blank_def str_def match_blank_def match_shusseki_def slice_from_def
      slice_bound_def fullmatch_rule_def clean_def remove_number_honorific_def match_number_def
      number_class_def Let_def)

text \<open>
  C8, amended. The loop checks only that a row contains the marker glyph. \<open>parse\<close>
  reaches the failure of \<open>remove_number_honorific\<close> exactly when one of the fragments that
  the loop has collected, spaces removed, has no match of the number pattern; and a
  fragment has a match whenever a character of the pattern's class stands immediately
  before a marker glyph in it.
\<close>

theorem parse_malformed_iff:
  "(fragments html_string = Inr (member_list, err) \<longrightarrow>
      (snd (parse html_string) = Inl MalformedFragment \<longleftrightarrow>
       (\<exists>member\<in>set member_list. re_search match_number (clean member) = None))) \<and>
   (number_class d \<longrightarrow> re_search match_number (clean (p @ d # BAN # q)) \<noteq> None)"
  using parse_members_malformed number_marker_match by (simp add: parse_def)

theorem parse_malformed_iff_witness:
  "snd (parse (SHUSSEKI @ GIIN @ [LF] @ [0x31, BAN, 0x5C71] @ [LF] @ [0x5C71, BAN, 0x7530])) =
     Inl MalformedFragment \<and>
   re_search match_number (clean ([0x5C71, SPACE] @ 0xFF13 # BAN # [ZSPACE, 0x7530])) \<noteq> None"
proof -
  let ?doc = "SHUSSEKI @ GIIN @ [LF] @ [0x31, BAN, 0x5C71] @ [LF] @ [0x5C71, BAN, 0x7530]"
  have f: "fragments ?doc = Inr ([[0x31, BAN, 0x5C71], [0x5C71, BAN, 0x7530]], [])"
    by (simp add: fragments_def normalize_def replace_empty_line_def match_br_line_def
        match_br_tag_def is_blank_def str_def match_blank_def match_shusseki_def slice_from_def
        slice_bound_def fullmatch_rule_def Let_def)
  have b: "\<exists>member\<in>set [[0x31, BAN, 0x5C71], [0x5C71, BAN, 0x7530]].
      re_search match_number (clean member) = None"
    by (simp add: clean_def match_number_def number_class_def)
  have c: "number_class 0xFF13"
    by (simp add: number_class_def)
  from parse_malformed_iff [of ?doc "[[0x31, BAN, 0x5C71], [0x5C71, BAN, 0x7530]]" "[]"
      "0xFF13" "[0x5C71, SPACE]" "[ZSPACE, 0x7530]"] f b c
  show ?thesis by blast
qed

end
